theory Spec2Isabelle
  imports Main
begin

section \<open>Channels and the exactly-once gate\<close>

text \<open>
  The Signaller's channels carry \<open>struct{}\<close> and are never sent on: the package only
  closes them, and hands them out receive-only. The observable state of such a channel
  is therefore one of: the nil channel (the zero value), an open channel, a closed one.
  Closing a nil channel or an already closed channel panics in Go; a receive completes
  only on a closed channel (it blocks forever on a nil or an open, unsent channel).
\<close>

datatype chan = NilChan | Open | Closed

datatype panic = CloseOfNilChannel | CloseOfClosedChannel

fun close_chan :: "chan \<Rightarrow> panic + chan" where
  "close_chan NilChan = Inl CloseOfNilChannel"
| "close_chan Open = Inr Closed"
| "close_chan Closed = Inl CloseOfClosedChannel"

definition recv_ready :: "chan \<Rightarrow> bool" where
  "recv_ready c = (c = Closed)"

text \<open>
  \<open>select { case <-c: return true; default: }; return false\<close>: the receive case is
  taken when the receive can proceed, the default case otherwise.
\<close>

definition select_default :: "chan \<Rightarrow> bool" where
  "select_default c = (if recv_ready c then True else False)"

section \<open>The Signaller\<close>

text \<open>
  Each \<open>sync.Once\<close> is its \<open>done\<close> bit: \<open>Do f\<close> runs \<open>f\<close> when the bit is clear and
  sets it, and does nothing when it is set.
\<close>

record Signaller =
  softStopChan :: chan
  softStopOnce :: bool
  hardStopChan :: chan
  hardStopOnce :: bool
  hasStoppedChan :: chan
  hasStoppedOnce :: bool

definition NewSignaller :: Signaller where
  "NewSignaller =
     \<lparr> softStopChan = Open, softStopOnce = False,
       hardStopChan = Open, hardStopOnce = False,
       hasStoppedChan = Open, hasStoppedOnce = False \<rparr>"

definition TriggerSoftStop :: "Signaller \<Rightarrow> panic + Signaller" where
  "TriggerSoftStop s =
     (if softStopOnce s then Inr s
      else case close_chan (softStopChan s) of
             Inl e \<Rightarrow> Inl e
           | Inr c \<Rightarrow> Inr (s\<lparr>softStopChan := c, softStopOnce := True\<rparr>))"

definition TriggerHardStop :: "Signaller \<Rightarrow> panic + Signaller" where
  "TriggerHardStop s =
     (case TriggerSoftStop s of
        Inl e \<Rightarrow> Inl e
      | Inr s1 \<Rightarrow>
          if hardStopOnce s1 then Inr s1
          else (case close_chan (hardStopChan s1) of
                  Inl e \<Rightarrow> Inl e
                | Inr c \<Rightarrow> Inr (s1\<lparr>hardStopChan := c, hardStopOnce := True\<rparr>)))"

definition TriggerHasStopped :: "Signaller \<Rightarrow> panic + Signaller" where
  "TriggerHasStopped s =
     (if hasStoppedOnce s then Inr s
      else case close_chan (hasStoppedChan s) of
             Inl e \<Rightarrow> Inl e
           | Inr c \<Rightarrow> Inr (s\<lparr>hasStoppedChan := c, hasStoppedOnce := True\<rparr>))"

definition SoftStopChan :: "Signaller \<Rightarrow> chan" where
  "SoftStopChan s = softStopChan s"

definition HardStopChan :: "Signaller \<Rightarrow> chan" where
  "HardStopChan s = hardStopChan s"

definition HasStoppedChan :: "Signaller \<Rightarrow> chan" where
  "HasStoppedChan s = hasStoppedChan s"

definition IsSoftStopSignalled :: "Signaller \<Rightarrow> bool" where
  "IsSoftStopSignalled s = select_default (SoftStopChan s)"

definition IsHardStopSignalled :: "Signaller \<Rightarrow> bool" where
  "IsHardStopSignalled s = select_default (HardStopChan s)"

definition IsHasStoppedSignalled :: "Signaller \<Rightarrow> bool" where
  "IsHasStoppedSignalled s = select_default (HasStoppedChan s)"

text \<open>
  The states a Signaller can be in: the fields are unexported, \<open>NewSignaller\<close> is the
  constructor, and the three triggers are the only operations that write a field.
\<close>

datatype signal = SoftStop | HardStop | HasStopped

fun trigger :: "signal \<Rightarrow> Signaller \<Rightarrow> panic + Signaller" where
  "trigger SoftStop s = TriggerSoftStop s"
| "trigger HardStop s = TriggerHardStop s"
| "trigger HasStopped s = TriggerHasStopped s"

inductive signaller_state :: "Signaller \<Rightarrow> bool" where
  fresh_state: "signaller_state NewSignaller"
| triggered_state: "signaller_state s \<Longrightarrow> trigger t s = Inr s' \<Longrightarrow> signaller_state s'"

text \<open>
  In every such state each gate agrees with its channel: the channel is closed exactly
  when the gate has fired, and is open otherwise.
\<close>

definition gate_ok :: "bool \<Rightarrow> chan \<Rightarrow> bool" where
  "gate_ok done c = (c = (if done then Closed else Open))"

definition gates_ok :: "Signaller \<Rightarrow> bool" where
  "gates_ok s =
     (gate_ok (softStopOnce s) (softStopChan s) \<and>
      gate_ok (hardStopOnce s) (hardStopChan s) \<and>
      gate_ok (hasStoppedOnce s) (hasStoppedChan s))"

definition escalated :: "Signaller \<Rightarrow> bool" where
  "escalated s = (IsHardStopSignalled s \<longrightarrow> IsSoftStopSignalled s)"

definition signal_chan :: "signal \<Rightarrow> Signaller \<Rightarrow> chan" where
  "signal_chan sg s =
     (case sg of SoftStop \<Rightarrow> softStopChan s
               | HardStop \<Rightarrow> hardStopChan s
               | HasStopped \<Rightarrow> hasStoppedChan s)"

definition signalled :: "signal \<Rightarrow> Signaller \<Rightarrow> bool" where
  "signalled sg s =
     (case sg of SoftStop \<Rightarrow> IsSoftStopSignalled s
               | HardStop \<Rightarrow> IsHardStopSignalled s
               | HasStopped \<Rightarrow> IsHasStoppedSignalled s)"

section \<open>Contexts and the watcher goroutines\<close>

text \<open>
  The derived scopes are built on Go's \<open>context\<close> package, modelled here as its
  documentation describes it. \<open>context.Background()\<close> is never cancelled and its
  \<open>Done()\<close> is the nil channel. \<open>context.WithCancel(parent)\<close> returns a child with
  a Done channel of its own, which is closed when the returned \<open>CancelFunc\<close> is
  called or when the parent's Done channel is closed, whichever happens first; after
  the first call, later calls of a \<open>CancelFunc\<close> do nothing.

  A context value is the chain of its ancestors, as the Go value is (a child embeds
  its parent); the number names its own cancellation state. The world holds the
  Signaller, the set of contexts whose \<open>CancelFunc\<close> has been called, the supply of
  fresh names, and the goroutines that are blocked in their \<open>select\<close>: each with the
  context and the Signaller channel it waits on, and the \<open>cancel\<close> it calls after.
\<close>

datatype ctx = Background | CancelCtx nat ctx

datatype cancel_func = CancelFunc nat

type_synonym goroutine = "ctx \<times> signal \<times> cancel_func"

record world =
  signaller :: Signaller
  cancelled :: "nat set"
  next_ctx :: nat
  goroutines :: "goroutine list"

definition new_world :: world where
  "new_world =
     \<lparr> signaller = NewSignaller, cancelled = {}, next_ctx = 0, goroutines = [] \<rparr>"

fun Done :: "nat set \<Rightarrow> ctx \<Rightarrow> chan" where
  "Done C Background = NilChan"
| "Done C (CancelCtx i parent) =
     (if i \<in> C \<or> recv_ready (Done C parent) then Closed else Open)"

definition ctx_done :: "world \<Rightarrow> ctx \<Rightarrow> bool" where
  "ctx_done w c = recv_ready (Done (cancelled w) c)"

definition WithCancel :: "ctx \<Rightarrow> world \<Rightarrow> (ctx \<times> cancel_func) \<times> world" where
  "WithCancel parent w =
     ((CancelCtx (next_ctx w) parent, CancelFunc (next_ctx w)),
      w\<lparr>next_ctx := Suc (next_ctx w)\<rparr>)"

fun call_cancel :: "cancel_func \<Rightarrow> world \<Rightarrow> world" where
  "call_cancel (CancelFunc i) w = w\<lparr>cancelled := insert i (cancelled w)\<rparr>"

text \<open>
  \<open>go func() { select { case <-ctx.Done(): case <-s.xChan: }; cancel() }()\<close>:
  the \<open>go\<close> statement adds the goroutine; it can run once one of its two receives
  can proceed, and then it calls \<open>cancel\<close> and ends. Resuming a goroutine that is
  still blocked, or one that does not exist, changes nothing.
\<close>

definition go :: "goroutine \<Rightarrow> world \<Rightarrow> world" where
  "go g w = w\<lparr>goroutines := goroutines w @ [g]\<rparr>"

fun runnable :: "world \<Rightarrow> goroutine \<Rightarrow> bool" where
  "runnable w (c, sg, cancel) =
     (recv_ready (Done (cancelled w) c) \<or> recv_ready (signal_chan sg (signaller w)))"

fun finish :: "goroutine \<Rightarrow> world \<Rightarrow> world" where
  "finish (c, sg, cancel) w = call_cancel cancel w"

definition resume :: "nat \<Rightarrow> world \<Rightarrow> world" where
  "resume k w =
     (if k < length (goroutines w) \<and> runnable w (goroutines w ! k)
      then finish (goroutines w ! k)
             (w\<lparr>goroutines := take k (goroutines w) @ drop (Suc k) (goroutines w)\<rparr>)
      else w)"

text \<open>
  The three constructors differ only in the channel the goroutine waits on. In each,
  \<open>ctx\<close> is reassigned to the child before the goroutine starts, so the goroutine
  waits on the child's Done channel. The parent is a context of the \<open>context\<close>
  package: \<open>Background\<close>, or one made by \<open>WithCancel\<close>; a deadline or any other
  owner cancelling it is a call of its cancel function.
\<close>

definition stop_ctx :: "signal \<Rightarrow> ctx \<Rightarrow> world \<Rightarrow> (ctx \<times> cancel_func) \<times> world" where
  "stop_ctx sg parent w =
     (case WithCancel parent w of
        ((c, cancel), w1) \<Rightarrow> ((c, cancel), go (c, sg, cancel) w1))"

definition SoftStopCtx :: "ctx \<Rightarrow> world \<Rightarrow> (ctx \<times> cancel_func) \<times> world" where
  "SoftStopCtx parent w = stop_ctx SoftStop parent w"

definition HardStopCtx :: "ctx \<Rightarrow> world \<Rightarrow> (ctx \<times> cancel_func) \<times> world" where
  "HardStopCtx parent w = stop_ctx HardStop parent w"

definition HasStoppedCtx :: "ctx \<Rightarrow> world \<Rightarrow> (ctx \<times> cancel_func) \<times> world" where
  "HasStoppedCtx parent w = stop_ctx HasStopped parent w"

section \<open>The public operations and what can happen around them\<close>

datatype request =
    M_TriggerSoftStop | M_TriggerHardStop | M_TriggerHasStopped
  | M_IsSoftStopSignalled | M_IsHardStopSignalled | M_IsHasStoppedSignalled
  | M_SoftStopChan | M_HardStopChan | M_HasStoppedChan
  | M_SoftStopCtx ctx | M_HardStopCtx ctx | M_HasStoppedCtx ctx

datatype reply = R_None | R_Bool bool | R_Chan chan | R_Ctx ctx cancel_func

definition on_signaller ::
  "(Signaller \<Rightarrow> panic + Signaller) \<Rightarrow> world \<Rightarrow> panic + (reply \<times> world)" where
  "on_signaller f w =
     (case f (signaller w) of
        Inl e \<Rightarrow> Inl e
      | Inr s \<Rightarrow> Inr (R_None, w\<lparr>signaller := s\<rparr>))"

definition scope_reply :: "(ctx \<times> cancel_func) \<times> world \<Rightarrow> panic + (reply \<times> world)" where
  "scope_reply r = (case r of ((c, cancel), w) \<Rightarrow> Inr (R_Ctx c cancel, w))"

fun invoke :: "request \<Rightarrow> world \<Rightarrow> panic + (reply \<times> world)" where
  "invoke M_TriggerSoftStop w = on_signaller TriggerSoftStop w"
| "invoke M_TriggerHardStop w = on_signaller TriggerHardStop w"
| "invoke M_TriggerHasStopped w = on_signaller TriggerHasStopped w"
| "invoke M_IsSoftStopSignalled w = Inr (R_Bool (IsSoftStopSignalled (signaller w)), w)"
| "invoke M_IsHardStopSignalled w = Inr (R_Bool (IsHardStopSignalled (signaller w)), w)"
| "invoke M_IsHasStoppedSignalled w = Inr (R_Bool (IsHasStoppedSignalled (signaller w)), w)"
| "invoke M_SoftStopChan w = Inr (R_Chan (SoftStopChan (signaller w)), w)"
| "invoke M_HardStopChan w = Inr (R_Chan (HardStopChan (signaller w)), w)"
| "invoke M_HasStoppedChan w = Inr (R_Chan (HasStoppedChan (signaller w)), w)"
| "invoke (M_SoftStopCtx parent) w = scope_reply (SoftStopCtx parent w)"
| "invoke (M_HardStopCtx parent) w = scope_reply (HardStopCtx parent w)"
| "invoke (M_HasStoppedCtx parent) w = scope_reply (HasStoppedCtx parent w)"

text \<open>
  What can happen to a world: a caller invokes an operation of the Signaller; a holder of
  a \<open>CancelFunc\<close> calls it (the release function of a derived scope, or the owner of
  a parent cancelling it); a caller makes a context of its own with
  \<open>context.WithCancel\<close>; the scheduler resumes a goroutine.
\<close>

datatype event = Invoke request | Cancel cancel_func | Derive ctx | Resume nat

fun fire :: "event \<Rightarrow> world \<Rightarrow> panic + world" where
  "fire (Invoke m) w = (case invoke m w of Inl e \<Rightarrow> Inl e | Inr (r, w') \<Rightarrow> Inr w')"
| "fire (Cancel cancel) w = Inr (call_cancel cancel w)"
| "fire (Derive parent) w = Inr (snd (WithCancel parent w))"
| "fire (Resume k) w = Inr (resume k w)"

fun run :: "event list \<Rightarrow> world \<Rightarrow> panic + world" where
  "run [] w = Inr w"
| "run (e # es) w = (case fire e w of Inl x \<Rightarrow> Inl x | Inr w' \<Rightarrow> run es w')"

text \<open>
  An event can only name contexts and cancel functions that exist: those made so far,
  whose names are below the next fresh one, each context's name above its ancestors'.
\<close>

fun ctx_below :: "nat \<Rightarrow> ctx \<Rightarrow> bool" where
  "ctx_below n Background = True"
| "ctx_below n (CancelCtx i parent) = (i < n \<and> ctx_below i parent)"

definition ctx_exists :: "world \<Rightarrow> ctx \<Rightarrow> bool" where
  "ctx_exists w c = ctx_below (next_ctx w) c"

fun request_ctx :: "request \<Rightarrow> ctx" where
  "request_ctx (M_SoftStopCtx parent) = parent"
| "request_ctx (M_HardStopCtx parent) = parent"
| "request_ctx (M_HasStoppedCtx parent) = parent"
| "request_ctx m = Background"

fun possible :: "event \<Rightarrow> world \<Rightarrow> bool" where
  "possible (Invoke m) w = ctx_exists w (request_ctx m)"
| "possible (Cancel (CancelFunc i)) w = (i < next_ctx w)"
| "possible (Derive parent) w = ctx_exists w parent"
| "possible (Resume k) w = True"

inductive reachable :: "world \<Rightarrow> bool" where
  reachable_new: "reachable new_world"
| reachable_fire: "reachable w \<Longrightarrow> possible e w \<Longrightarrow> fire e w = Inr w' \<Longrightarrow> reachable w'"

text \<open>A world in which every goroutine is blocked: nothing is left for the scheduler.\<close>

definition quiescent :: "world \<Rightarrow> bool" where
  "quiescent w = (\<forall>g \<in> set (goroutines w). \<not> runnable w g)"

section \<open>Sequences of calls, histories and schedules\<close>

text \<open>
  \<open>covers t sg\<close>: the trigger \<open>t\<close> gives the signal \<open>sg\<close>. TriggerHardStop gives
  the soft-stop signal too, because it calls TriggerSoftStop first.
\<close>

fun covers :: "signal \<Rightarrow> signal \<Rightarrow> bool" where
  "covers HardStop SoftStop = True"
| "covers t sg = (t = sg)"

fun triggers :: "signal list \<Rightarrow> Signaller \<Rightarrow> panic + Signaller" where
  "triggers [] s = Inr s"
| "triggers (t # ts) s = (case trigger t s of Inl e \<Rightarrow> Inl e | Inr s' \<Rightarrow> triggers ts s')"

text \<open>
  The worlds an execution passes through, the number of steps of a list at which a
  property goes from false to true, and the events that give a signal.
\<close>

fun history :: "event list \<Rightarrow> world \<Rightarrow> world list" where
  "history [] w = [w]"
| "history (e # es) w = w # (case fire e w of Inl x \<Rightarrow> [] | Inr w' \<Rightarrow> history es w')"

fun risings :: "('a \<Rightarrow> bool) \<Rightarrow> 'a list \<Rightarrow> nat" where
  "risings q (a # b # xs) = (if \<not> q a \<and> q b then 1 else 0) + risings q (b # xs)"
| "risings q xs = 0"

fun raises :: "event \<Rightarrow> signal \<Rightarrow> bool" where
  "raises (Invoke M_TriggerSoftStop) sg = covers SoftStop sg"
| "raises (Invoke M_TriggerHardStop) sg = covers HardStop sg"
| "raises (Invoke M_TriggerHasStopped) sg = covers HasStopped sg"
| "raises e sg = False"

text \<open>A schedule: the goroutines the scheduler resumes, in order.\<close>

fun resumes :: "nat list \<Rightarrow> world \<Rightarrow> world" where
  "resumes [] w = w"
| "resumes (k # ks) w = resumes ks (resume k w)"

text \<open>
  Every goroutine of a world holds a context made by \<open>WithCancel\<close> together with
  that context's own cancel function, and every name in use is below the next fresh one.
\<close>

fun goroutine_ok :: "world \<Rightarrow> goroutine \<Rightarrow> bool" where
  "goroutine_ok w (CancelCtx i parent, sg, CancelFunc j) =
     (i = j \<and> i < next_ctx w \<and> ctx_below i parent)"
| "goroutine_ok w (Background, sg, cancel) = False"

definition world_ok :: "world \<Rightarrow> bool" where
  "world_ok w =
     ((\<forall>i \<in> cancelled w. i < next_ctx w) \<and> (\<forall>g \<in> set (goroutines w). goroutine_ok w g))"

text \<open>
  The two situations of the watcher of the scope \<open>CancelCtx n parent\<close>. Blocked: its
  signal has not been given, the scope has been cancelled only if its parent is, and
  no other goroutine holds its cancel function. Firing: its signal has been given, and
  either the scope is cancelled already or the watcher is still there to cancel it.
\<close>

definition blocked :: "signal \<Rightarrow> nat \<Rightarrow> ctx \<Rightarrow> world \<Rightarrow> bool" where
  "blocked sg n parent w =
     (\<not> signalled sg (signaller w) \<and>
      (n \<in> cancelled w \<longrightarrow> ctx_done w parent) \<and>
      (\<forall>g \<in> set (goroutines w).
         snd (snd g) = CancelFunc n \<longrightarrow> g = (CancelCtx n parent, sg, CancelFunc n)))"

definition firing :: "signal \<Rightarrow> nat \<Rightarrow> ctx \<Rightarrow> world \<Rightarrow> bool" where
  "firing sg n parent w =
     (signalled sg (signaller w) \<and>
      (ctx_done w (CancelCtx n parent) \<or>
       (CancelCtx n parent, sg, CancelFunc n) \<in> set (goroutines w)))"

section \<open>The gates and the flags\<close>

lemmas query_defs =
  IsSoftStopSignalled_def IsHardStopSignalled_def IsHasStoppedSignalled_def
  SoftStopChan_def HardStopChan_def HasStoppedChan_def select_default_def recv_ready_def

lemmas trigger_defs = TriggerSoftStop_def TriggerHardStop_def TriggerHasStopped_def

lemma gates_ok_NewSignaller: "gates_ok NewSignaller"
  by (simp add: gates_ok_def gate_ok_def NewSignaller_def)

lemma escalated_NewSignaller: "escalated NewSignaller"
  by (simp add: escalated_def query_defs NewSignaller_def)

lemma trigger_keeps_gates:
  assumes "gates_ok s" and "escalated s" and "trigger t s = Inr s'"
  shows "gates_ok s' \<and> escalated s'"
proof (cases t)
  case SoftStop
  with assms show ?thesis
    by (auto simp: TriggerSoftStop_def gates_ok_def gate_ok_def escalated_def query_defs
             split: if_splits)
next
  case HardStop
  with assms show ?thesis
    by (auto simp: TriggerHardStop_def TriggerSoftStop_def gates_ok_def gate_ok_def
                   escalated_def query_defs
             split: if_splits)
next
  case HasStopped
  with assms show ?thesis
    by (auto simp: TriggerHasStopped_def gates_ok_def gate_ok_def escalated_def query_defs
             split: if_splits)
qed

lemma signaller_state_gates: "signaller_state s \<Longrightarrow> gates_ok s \<and> escalated s"
proof (induction rule: signaller_state.induct)
  case fresh_state
  show ?case by (simp add: gates_ok_NewSignaller escalated_NewSignaller)
next
  case (triggered_state s t s')
  then show ?case using trigger_keeps_gates by blast
qed

lemma signalled_simps:
  "signalled SoftStop s = (softStopChan s = Closed)"
  "signalled HardStop s = (hardStopChan s = Closed)"
  "signalled HasStopped s = (hasStoppedChan s = Closed)"
  by (simp_all add: signalled_def query_defs)

lemma gates_ok_eqI:
  assumes "gates_ok s" and "gates_ok s'" and "\<And>sg. signalled sg s' = signalled sg s"
  shows "s' = s"
proof -
  from assms(3) [of SoftStop] assms(3) [of HardStop] assms(3) [of HasStopped]
  have "(softStopChan s' = Closed) = (softStopChan s = Closed)"
       "(hardStopChan s' = Closed) = (hardStopChan s = Closed)"
       "(hasStoppedChan s' = Closed) = (hasStoppedChan s = Closed)"
    by (simp_all add: signalled_simps)
  with assms(1,2) show ?thesis
    by (cases s, cases s') (auto simp: gates_ok_def gate_ok_def split: if_splits)
qed

lemma trigger_closed_form:
  assumes "gates_ok s"
  shows "\<exists>s'. trigger t s = Inr s' \<and> gates_ok s' \<and>
              (\<forall>sg. signalled sg s' = (signalled sg s \<or> covers t sg))"
proof (cases t)
  case SoftStop
  with assms show ?thesis
    apply (simp add: TriggerSoftStop_def gates_ok_def gate_ok_def)
    apply (intro conjI impI allI)
    subgoal for sg by (cases sg) (simp_all add: signalled_simps)
    subgoal for sg by (cases sg) (simp_all add: signalled_simps)
    done
next
  case HardStop
  with assms show ?thesis
    apply (simp add: TriggerHardStop_def TriggerSoftStop_def gates_ok_def gate_ok_def)
    apply (intro conjI impI allI)
    subgoal for sg by (cases sg) (simp_all add: signalled_simps)
    subgoal for sg by (cases sg) (simp_all add: signalled_simps)
    subgoal for sg by (cases sg) (simp_all add: signalled_simps)
    subgoal for sg by (cases sg) (simp_all add: signalled_simps)
    done
next
  case HasStopped
  with assms show ?thesis
    apply (simp add: TriggerHasStopped_def gates_ok_def gate_ok_def)
    apply (intro conjI impI allI)
    subgoal for sg by (cases sg) (simp_all add: signalled_simps)
    subgoal for sg by (cases sg) (simp_all add: signalled_simps)
    done
qed

lemma triggers_closed_form:
  "gates_ok s \<Longrightarrow>
   \<exists>s'. triggers ts s = Inr s' \<and> gates_ok s' \<and>
        (\<forall>sg. signalled sg s' = (signalled sg s \<or> (\<exists>t \<in> set ts. covers t sg)))"
proof (induction ts arbitrary: s)
  case Nil
  then show ?case by simp
next
  case (Cons t ts)
  from trigger_closed_form [OF Cons.prems, of t] obtain s1 where
    s1: "trigger t s = Inr s1" "gates_ok s1"
        "\<And>sg. signalled sg s1 = (signalled sg s \<or> covers t sg)" by blast
  from Cons.IH [OF s1(2)] obtain s2 where
    s2: "triggers ts s1 = Inr s2" "gates_ok s2"
        "\<And>sg. signalled sg s2 = (signalled sg s1 \<or> (\<exists>t \<in> set ts. covers t sg))" by blast
  have "triggers (t # ts) s = Inr s2" using s1(1) s2(1) by simp
  moreover have "\<forall>sg. signalled sg s2 = (signalled sg s \<or> (\<exists>u \<in> set (t # ts). covers u sg))"
    using s1(3) s2(3) by auto
  ultimately show ?case using s2(2) by blast
qed

lemma signaller_call_cancel [simp]: "signaller (call_cancel f w) = signaller w"
  by (cases f) simp

lemma signaller_resume [simp]: "signaller (resume k w) = signaller w"
  by (cases "goroutines w ! k") (simp add: resume_def)

lemma signaller_WithCancel [simp]: "signaller (snd (WithCancel p w)) = signaller w"
  by (simp add: WithCancel_def)

lemma signaller_stop_ctx [simp]: "signaller (snd (stop_ctx sg p w)) = signaller w"
  by (simp add: stop_ctx_def WithCancel_def go_def)

lemma trigger_funs:
  "trigger SoftStop = TriggerSoftStop"
  "trigger HardStop = TriggerHardStop"
  "trigger HasStopped = TriggerHasStopped"
  by (rule ext, simp)+

lemma invoke_trigger_closed_form:
  assumes "gates_ok (signaller w)"
  shows "\<exists>w'. on_signaller (trigger t) w = Inr (R_None, w') \<and> gates_ok (signaller w') \<and>
               (\<forall>sg. signalled sg (signaller w') = (signalled sg (signaller w) \<or> covers t sg))"
proof -
  from trigger_closed_form [OF assms, of t] obtain s' where
    "trigger t (signaller w) = Inr s'" "gates_ok s'"
    "\<forall>sg. signalled sg s' = (signalled sg (signaller w) \<or> covers t sg)" by blast
  then show ?thesis by (simp add: on_signaller_def)
qed

lemma fire_closed_form:
  assumes "gates_ok (signaller w)"
  shows "\<exists>w'. fire e w = Inr w' \<and> gates_ok (signaller w') \<and>
               (\<forall>sg. signalled sg (signaller w') = (signalled sg (signaller w) \<or> raises e sg))"
proof (cases e)
  case (Invoke m)
  show ?thesis
  proof (cases m)
    case M_TriggerSoftStop
    with Invoke invoke_trigger_closed_form [OF assms, of SoftStop] show ?thesis
      by (auto simp: trigger_funs)
  next
    case M_TriggerHardStop
    with Invoke invoke_trigger_closed_form [OF assms, of HardStop] show ?thesis
      by (auto simp: trigger_funs)
  next
    case M_TriggerHasStopped
    with Invoke invoke_trigger_closed_form [OF assms, of HasStopped] show ?thesis
      by (auto simp: trigger_funs)
  next
    case (M_SoftStopCtx p)
    with Invoke assms show ?thesis
      by (cases "stop_ctx SoftStop p w")
         (use signaller_stop_ctx [of SoftStop p w] in \<open>auto simp: scope_reply_def SoftStopCtx_def\<close>)
  next
    case (M_HardStopCtx p)
    with Invoke assms show ?thesis
      by (cases "stop_ctx HardStop p w")
         (use signaller_stop_ctx [of HardStop p w] in \<open>auto simp: scope_reply_def HardStopCtx_def\<close>)
  next
    case (M_HasStoppedCtx p)
    with Invoke assms show ?thesis
      by (cases "stop_ctx HasStopped p w")
         (use signaller_stop_ctx [of HasStopped p w] in \<open>auto simp: scope_reply_def HasStoppedCtx_def\<close>)
  qed (use Invoke assms in simp_all)
qed (use assms in simp_all)

lemma run_closed_form:
  "gates_ok (signaller w) \<Longrightarrow>
   \<exists>w'. run es w = Inr w' \<and> gates_ok (signaller w') \<and>
        (\<forall>sg. signalled sg (signaller w') =
               (signalled sg (signaller w) \<or> (\<exists>e \<in> set es. raises e sg)))"
proof (induction es arbitrary: w)
  case Nil
  then show ?case by simp
next
  case (Cons e es)
  from fire_closed_form [OF Cons.prems, of e] obtain w1 where
    w1: "fire e w = Inr w1" "gates_ok (signaller w1)"
        "\<And>sg. signalled sg (signaller w1) = (signalled sg (signaller w) \<or> raises e sg)"
    by blast
  from Cons.IH [OF w1(2)] obtain w2 where
    w2: "run es w1 = Inr w2" "gates_ok (signaller w2)"
        "\<And>sg. signalled sg (signaller w2) =
               (signalled sg (signaller w1) \<or> (\<exists>e \<in> set es. raises e sg))"
    by blast
  have "run (e # es) w = Inr w2" using w1(1) w2(1) by simp
  moreover have "\<forall>sg. signalled sg (signaller w2) =
      (signalled sg (signaller w) \<or> (\<exists>x \<in> set (e # es). raises x sg))"
    using w1(3) w2(3) by auto
  ultimately show ?case using w2(2) by blast
qed

lemma reachable_gates: "reachable w \<Longrightarrow> gates_ok (signaller w)"
proof (induction rule: reachable.induct)
  case reachable_new
  show ?case by (simp add: new_world_def gates_ok_NewSignaller)
next
  case (reachable_fire w e w')
  from fire_closed_form [OF reachable_fire.IH, of e] reachable_fire.hyps(3)
  show ?case by auto
qed

lemma history_head: "\<exists>r. history es w = w # r"
  by (cases es) simp_all

lemma risings_history:
  "gates_ok (signaller w) \<Longrightarrow>
   risings (\<lambda>w. signalled sg (signaller w)) (history es w) =
     (if \<not> signalled sg (signaller w) \<and> (\<exists>e \<in> set es. raises e sg) then 1 else 0)"
proof (induction es arbitrary: w)
  case Nil
  then show ?case by simp
next
  case (Cons e es)
  let ?q = "\<lambda>w. signalled sg (signaller w)"
  from fire_closed_form [OF Cons.prems, of e] obtain w1 where
    w1: "fire e w = Inr w1" "gates_ok (signaller w1)"
        "?q w1 = (?q w \<or> raises e sg)"
    by blast
  obtain r where r: "history es w1 = w1 # r" using history_head by blast
  have "risings ?q (history (e # es) w) =
          (if \<not> ?q w \<and> ?q w1 then 1 else 0) + risings ?q (history es w1)"
    using w1(1) r by simp
  also have "risings ?q (history es w1) =
          (if \<not> ?q w1 \<and> (\<exists>e \<in> set es. raises e sg) then 1 else 0)"
    by (rule Cons.IH [OF w1(2)])
  finally show ?case using w1(3) by auto
qed

lemma escalated_signalled: "escalated s = (signalled HardStop s \<longrightarrow> signalled SoftStop s)"
  by (simp add: escalated_def signalled_def)

lemma raises_hard_soft: "raises e HardStop \<Longrightarrow> raises e SoftStop"
  by (induction e HardStop rule: raises.induct) simp_all

lemma fire_keeps_escalated:
  assumes "gates_ok (signaller w)" and "escalated (signaller w)" and "fire e w = Inr w'"
  shows "escalated (signaller w')"
proof -
  from fire_closed_form [OF assms(1), of e] assms(3)
  have "\<forall>sg. signalled sg (signaller w') = (signalled sg (signaller w) \<or> raises e sg)"
    by auto
  with assms(2) raises_hard_soft [of e] show ?thesis
    by (auto simp: escalated_signalled)
qed

lemma reachable_escalated: "reachable w \<Longrightarrow> escalated (signaller w)"
proof (induction rule: reachable.induct)
  case reachable_new
  show ?case by (simp add: new_world_def escalated_NewSignaller)
next
  case (reachable_fire w e w')
  then show ?case using fire_keeps_escalated reachable_gates by blast
qed

lemma fire_Invoke_Inr: "fire (Invoke m) w = Inr w' \<Longrightarrow> \<exists>r. invoke m w = Inr (r, w')"
  by (auto split: sum.splits)

lemma triggers_same_set:
  assumes "gates_ok s" and "set ts = set ts'"
  shows "\<exists>s'. triggers ts s = Inr s' \<and> triggers ts' s = Inr s'"
proof -
  from triggers_closed_form [OF assms(1), of ts] obtain s1 where
    s1: "triggers ts s = Inr s1" "gates_ok s1"
        "\<And>sg. signalled sg s1 = (signalled sg s \<or> (\<exists>t \<in> set ts. covers t sg))" by blast
  from triggers_closed_form [OF assms(1), of ts'] obtain s2 where
    s2: "triggers ts' s = Inr s2" "gates_ok s2"
        "\<And>sg. signalled sg s2 = (signalled sg s \<or> (\<exists>t \<in> set ts'. covers t sg))" by blast
  have "s2 = s1"
    by (rule gates_ok_eqI [OF s1(2) s2(2)]) (simp add: s1(3) s2(3) assms(2))
  with s1(1) s2(1) show ?thesis by simp
qed

lemma trigger_set_noop:
  assumes "gates_ok s" and "escalated s" and "signalled t s"
  shows "trigger t s = Inr s"
proof (cases t)
  case SoftStop
  with assms show ?thesis
    by (auto simp: TriggerSoftStop_def gates_ok_def gate_ok_def signalled_simps split: if_splits)
next
  case HardStop
  with assms show ?thesis
    by (auto simp: TriggerHardStop_def TriggerSoftStop_def gates_ok_def gate_ok_def
          signalled_simps escalated_signalled split: if_splits)
next
  case HasStopped
  with assms show ?thesis
    by (auto simp: TriggerHasStopped_def gates_ok_def gate_ok_def signalled_simps split: if_splits)
qed

section \<open>Contexts, goroutines and reachable worlds\<close>

subsection \<open>Contexts\<close>

lemma ctx_below_mono: "ctx_below i c \<Longrightarrow> i \<le> n \<Longrightarrow> ctx_below n c"
  by (cases c) auto

lemma Done_mono: "C \<subseteq> C' \<Longrightarrow> recv_ready (Done C c) \<Longrightarrow> recv_ready (Done C' c)"
  by (induction c) (auto simp: recv_ready_def split: if_splits)

lemma Done_insert_fresh: "ctx_below n c \<Longrightarrow> Done (insert n C) c = Done C c"
proof (induction c arbitrary: n)
  case Background
  show ?case by simp
next
  case (CancelCtx i p)
  then have "i < n" and "ctx_below i p" by simp_all
  then have "ctx_below n p" using ctx_below_mono [of i p n] by simp
  with CancelCtx.IH have "Done (insert n C) p = Done C p" by simp
  with \<open>i < n\<close> show ?case by simp
qed

lemma ctx_done_child:
  "ctx_done w (CancelCtx i p) = (i \<in> cancelled w \<or> ctx_done w p)"
  by (simp add: ctx_done_def recv_ready_def)

lemma ctx_done_Background [simp]: "\<not> ctx_done w Background"
  by (simp add: ctx_done_def recv_ready_def)

subsection \<open>What an event changes\<close>

lemma on_signaller_frame:
  assumes "on_signaller f w = Inr (r, w')"
  shows "cancelled w' = cancelled w \<and> next_ctx w' = next_ctx w \<and> goroutines w' = goroutines w"
  using assms by (auto simp: on_signaller_def split: sum.splits)

lemma stop_ctx_result:
  "stop_ctx sg parent w =
     ((CancelCtx (next_ctx w) parent, CancelFunc (next_ctx w)),
      w\<lparr>next_ctx := Suc (next_ctx w),
        goroutines := goroutines w @ [(CancelCtx (next_ctx w) parent, sg, CancelFunc (next_ctx w))]\<rparr>)"
  by (simp add: stop_ctx_def WithCancel_def go_def)

lemma resume_cases:
  obtains (blocked) "resume k w = w"
  | (ran) c sg i where "k < length (goroutines w)" "goroutines w ! k = (c, sg, CancelFunc i)"
      "runnable w (c, sg, CancelFunc i)"
      "resume k w = w\<lparr>goroutines := take k (goroutines w) @ drop (Suc k) (goroutines w),
                       cancelled := insert i (cancelled w)\<rparr>"
proof (cases "k < length (goroutines w) \<and> runnable w (goroutines w ! k)")
  case False
  then have "resume k w = w" by (auto simp: resume_def)
  then show ?thesis by (rule blocked)
next
  case True
  obtain c sg f where g: "goroutines w ! k = (c, sg, f)" by (cases "goroutines w ! k")
  obtain i where f: "f = CancelFunc i" by (cases f)
  from True g f have "resume k w =
      w\<lparr>goroutines := take k (goroutines w) @ drop (Suc k) (goroutines w),
        cancelled := insert i (cancelled w)\<rparr>"
    by (simp add: resume_def)
  with True g f show ?thesis using ran by simp
qed

lemma set_remove_nth: "set (take k xs @ drop (Suc k) xs) \<subseteq> set xs"
  using set_take_subset [of k xs] set_drop_subset [of "Suc k" xs] by auto

lemma remove_nth_keeps:
  assumes "x \<in> set xs" and "k < length xs \<longrightarrow> xs ! k \<noteq> x"
  shows "x \<in> set (take k xs @ drop (Suc k) xs)"
proof -
  from assms(1) obtain i where i: "i < length xs" "xs ! i = x"
    by (auto simp: in_set_conv_nth)
  with assms(2) have "i \<noteq> k" by auto
  show ?thesis
  proof (cases "i < k")
    case True
    with i have "x \<in> set (take k xs)" by (auto simp: in_set_conv_nth)
    then show ?thesis by simp
  next
    case False
    with \<open>i \<noteq> k\<close> have "Suc k \<le> i" by simp
    with i have "x \<in> set (drop (Suc k) xs)"
      by (metis Cons_nth_drop_Suc list.set_intros(1) set_drop_subset_set_drop subsetD)
    then show ?thesis by simp
  qed
qed

lemma resume_frame:
  "signaller (resume k w) = signaller w \<and> next_ctx (resume k w) = next_ctx w \<and>
   cancelled w \<subseteq> cancelled (resume k w) \<and>
   set (goroutines (resume k w)) \<subseteq> set (goroutines w)"
  by (cases k w rule: resume_cases) (auto dest: in_set_takeD in_set_dropD)

lemma resume_done_mono: "ctx_done w c \<Longrightarrow> ctx_done (resume k w) c"
  using resume_frame [of k w] Done_mono [of "cancelled w" "cancelled (resume k w)" c]
  by (simp add: ctx_done_def)

subsection \<open>Every reachable world is well formed\<close>

lemma goroutine_ok_next:
  "goroutine_ok w g \<Longrightarrow> next_ctx w \<le> next_ctx w' \<Longrightarrow> goroutine_ok w' g"
  by (induction w g rule: goroutine_ok.induct) auto

lemma world_ok_new: "world_ok new_world"
  by (simp add: world_ok_def new_world_def)

lemma world_ok_on_signaller:
  assumes "world_ok w" and "on_signaller f w = Inr (r, w')"
  shows "world_ok w'"
proof -
  from on_signaller_frame [OF assms(2)]
  have "cancelled w' = cancelled w" "next_ctx w' = next_ctx w" "goroutines w' = goroutines w"
    by simp_all
  with assms(1) goroutine_ok_next [of w _ w'] show ?thesis
    by (auto simp: world_ok_def)
qed

lemma world_ok_stop_ctx:
  assumes "world_ok w" and "ctx_exists w parent"
  shows "world_ok (snd (stop_ctx sg parent w))"
proof -
  let ?w' = "snd (stop_ctx sg parent w)"
  have n: "next_ctx ?w' = Suc (next_ctx w)" and c: "cancelled ?w' = cancelled w"
    and g: "goroutines ?w' =
       goroutines w @ [(CancelCtx (next_ctx w) parent, sg, CancelFunc (next_ctx w))]"
    by (simp_all add: stop_ctx_result)
  have "\<forall>i \<in> cancelled ?w'. i < next_ctx ?w'"
    using assms(1) n c by (auto simp: world_ok_def less_Suc_eq)
  moreover have "goroutine_ok ?w' (CancelCtx (next_ctx w) parent, sg, CancelFunc (next_ctx w))"
    using assms(2) n by (simp add: ctx_exists_def)
  moreover have "\<forall>x \<in> set (goroutines w). goroutine_ok ?w' x"
    using assms(1) n goroutine_ok_next [of w _ ?w'] by (simp add: world_ok_def)
  ultimately show ?thesis using g by (simp add: world_ok_def)
qed

lemma world_ok_resume:
  assumes "world_ok w"
  shows "world_ok (resume k w)"
proof (cases k w rule: resume_cases)
  case blocked
  with assms show ?thesis by simp
next
  case (ran c sg i)
  let ?w' = "resume k w"
  from ran(1,2) have m: "(c, sg, CancelFunc i) \<in> set (goroutines w)"
    by (metis nth_mem)
  with assms have "goroutine_ok w (c, sg, CancelFunc i)" by (simp add: world_ok_def)
  then have "i < next_ctx w" by (cases c) simp_all
  moreover have "next_ctx ?w' = next_ctx w" "cancelled ?w' = insert i (cancelled w)"
    "set (goroutines ?w') \<subseteq> set (goroutines w)"
    using ran(4) set_remove_nth [of k "goroutines w"] by simp_all
  ultimately show ?thesis
    using assms goroutine_ok_next [of w _ ?w'] by (auto simp: world_ok_def)
qed

lemma world_ok_fire:
  assumes "world_ok w" and "possible e w" and "fire e w = Inr w'"
  shows "world_ok w'"
proof (cases e)
  case (Invoke m)
  show ?thesis
  proof (cases m)
    case M_TriggerSoftStop
    with Invoke assms(3) world_ok_on_signaller [OF assms(1)] show ?thesis
      by (auto split: sum.splits)
  next
    case M_TriggerHardStop
    with Invoke assms(3) world_ok_on_signaller [OF assms(1)] show ?thesis
      by (auto split: sum.splits)
  next
    case M_TriggerHasStopped
    with Invoke assms(3) world_ok_on_signaller [OF assms(1)] show ?thesis
      by (auto split: sum.splits)
  next
    case (M_SoftStopCtx p)
    with Invoke assms(2,3) world_ok_stop_ctx [OF assms(1), of p SoftStop] show ?thesis
      by (auto simp: scope_reply_def SoftStopCtx_def split: prod.splits)
  next
    case (M_HardStopCtx p)
    with Invoke assms(2,3) world_ok_stop_ctx [OF assms(1), of p HardStop] show ?thesis
      by (auto simp: scope_reply_def HardStopCtx_def split: prod.splits)
  next
    case (M_HasStoppedCtx p)
    with Invoke assms(2,3) world_ok_stop_ctx [OF assms(1), of p HasStopped] show ?thesis
      by (auto simp: scope_reply_def HasStoppedCtx_def split: prod.splits)
  qed (use Invoke assms in auto)
next
  case (Cancel f)
  obtain i where "f = CancelFunc i" by (cases f)
  with Cancel assms goroutine_ok_next [of w _ w'] show ?thesis
    by (auto simp: world_ok_def)
next
  case (Derive p)
  with assms goroutine_ok_next [of w _ w'] show ?thesis
    by (auto simp: world_ok_def WithCancel_def less_Suc_eq)
next
  case (Resume k)
  with assms world_ok_resume [of w k] show ?thesis by auto
qed

lemma reachable_world_ok: "reachable w \<Longrightarrow> world_ok w"
proof (induction rule: reachable.induct)
  case reachable_new
  show ?case by (rule world_ok_new)
next
  case (reachable_fire w e w')
  then show ?case using world_ok_fire by blast
qed

lemma signalled_recv_ready: "signalled sg s = recv_ready (signal_chan sg s)"
  by (cases sg) (simp_all add: signalled_def signal_chan_def query_defs)

subsection \<open>A watcher whose signal has not been given\<close>

lemma blocked_resume:
  assumes "blocked sg n parent w"
  shows "blocked sg n parent (resume k w)"
proof (cases k w rule: resume_cases)
  case blocked
  with assms show ?thesis by simp
next
  case (ran c sg' i)
  let ?w' = "resume k w"
  from assms have a: "\<not> signalled sg (signaller w)"
    and b: "n \<in> cancelled w \<longrightarrow> ctx_done w parent"
    and c: "\<forall>g \<in> set (goroutines w).
         snd (snd g) = CancelFunc n \<longrightarrow> g = (CancelCtx n parent, sg, CancelFunc n)"
    by (simp_all add: blocked_def)
  have fr: "signaller ?w' = signaller w" "set (goroutines ?w') \<subseteq> set (goroutines w)"
    using resume_frame [of k w] by simp_all
  have "n \<in> cancelled ?w' \<longrightarrow> ctx_done ?w' parent"
  proof
    assume n: "n \<in> cancelled ?w'"
    have "ctx_done w parent"
    proof (cases "i = n")
      case True
      from ran(1,2) have "(c, sg', CancelFunc i) \<in> set (goroutines w)" by (metis nth_mem)
      with c True have "c = CancelCtx n parent" "sg' = sg" by auto
      with ran(3) a have "ctx_done w (CancelCtx n parent)"
        by (simp add: ctx_done_def signalled_recv_ready)
      with b show ?thesis by (auto simp: ctx_done_child)
    next
      case False
      with n ran(4) have "n \<in> cancelled w" by simp
      with b show ?thesis by simp
    qed
    then show "ctx_done ?w' parent" by (rule resume_done_mono)
  qed
  with a c fr show ?thesis by (auto simp: blocked_def)
qed

lemma blocked_resumes: "blocked sg n parent w \<Longrightarrow> blocked sg n parent (resumes ks w)"
  by (induction ks arbitrary: w) (simp_all add: blocked_resume)

lemma blocked_not_done:
  "blocked sg n parent w \<Longrightarrow> \<not> ctx_done w parent \<Longrightarrow> \<not> ctx_done w (CancelCtx n parent)"
  by (auto simp: blocked_def ctx_done_child)

lemma blocked_stop_ctx:
  assumes "world_ok w" and "\<not> signalled sg (signaller w)"
  shows "blocked sg (next_ctx w) parent (snd (stop_ctx sg parent w))"
proof -
  let ?n = "next_ctx w"
  have "?n \<notin> cancelled w" using assms(1) by (auto simp: world_ok_def)
  moreover have "snd (snd g) \<noteq> CancelFunc ?n" if "g \<in> set (goroutines w)" for g
  proof -
    from that assms(1) have "goroutine_ok w g" by (simp add: world_ok_def)
    then show ?thesis by (induction w g rule: goroutine_ok.induct) auto
  qed
  ultimately show ?thesis using assms(2)
    by (auto simp: blocked_def stop_ctx_result)
qed

lemma blocked_on_signaller:
  assumes "blocked sg n parent w" and "on_signaller f w = Inr (r, w')"
    and "\<not> signalled sg (signaller w')"
  shows "blocked sg n parent w'"
proof -
  from on_signaller_frame [OF assms(2)]
  have "cancelled w' = cancelled w" "goroutines w' = goroutines w" by simp_all
  with assms(1,3) show ?thesis by (simp add: blocked_def ctx_done_def)
qed

subsection \<open>A watcher whose signal has been given\<close>

lemma firing_resume:
  assumes "firing sg n parent w"
  shows "firing sg n parent (resume k w)"
proof (cases k w rule: resume_cases)
  case blocked
  with assms show ?thesis by simp
next
  case (ran c sg' i)
  let ?w' = "resume k w"
  let ?g = "(CancelCtx n parent, sg, CancelFunc n)"
  from assms have s: "signalled sg (signaller ?w')"
    using resume_frame [of k w] by (simp add: firing_def)
  have "ctx_done ?w' (CancelCtx n parent) \<or> ?g \<in> set (goroutines ?w')"
  proof (cases "ctx_done w (CancelCtx n parent)")
    case True
    then show ?thesis by (simp add: resume_done_mono)
  next
    case False
    with assms have m: "?g \<in> set (goroutines w)" by (simp add: firing_def)
    show ?thesis
    proof (cases "goroutines w ! k = ?g")
      case True
      with ran(2) have "i = n" by simp
      with ran(4) show ?thesis by (simp add: ctx_done_child)
    next
      case False
      with m have "?g \<in> set (take k (goroutines w) @ drop (Suc k) (goroutines w))"
        by (intro remove_nth_keeps) simp_all
      with ran(4) show ?thesis by simp
    qed
  qed
  with s show ?thesis by (simp add: firing_def)
qed

lemma firing_resumes: "firing sg n parent w \<Longrightarrow> firing sg n parent (resumes ks w)"
  by (induction ks arbitrary: w) (simp_all add: firing_resume)

lemma firing_runnable:
  assumes "firing sg n parent w"
  shows "ctx_done w (CancelCtx n parent) \<or>
         ((CancelCtx n parent, sg, CancelFunc n) \<in> set (goroutines w) \<and>
          runnable w (CancelCtx n parent, sg, CancelFunc n))"
  using assms by (auto simp: firing_def signalled_recv_ready)

lemma firing_quiescent:
  assumes "firing sg n parent w" and "quiescent w"
  shows "ctx_done w (CancelCtx n parent)"
  using firing_runnable [OF assms(1)] assms(2) by (auto simp: quiescent_def)

lemma firing_on_signaller:
  assumes "on_signaller f w = Inr (r, w')"
    and "goroutines w = gs @ [(CancelCtx n parent, sg, CancelFunc n)]"
    and "signalled sg (signaller w')"
  shows "firing sg n parent w' \<and> ctx_done (resume (length gs) w') (CancelCtx n parent)"
proof -
  let ?g = "(CancelCtx n parent, sg, CancelFunc n)"
  from on_signaller_frame [OF assms(1)] assms(2)
  have g: "goroutines w' = gs @ [?g]" by simp
  then have f: "firing sg n parent w'" using assms(3) by (simp add: firing_def)
  from g have k: "length gs < length (goroutines w')" "goroutines w' ! length gs = ?g"
    by simp_all
  moreover have "runnable w' ?g" using assms(3) by (simp add: signalled_recv_ready)
  ultimately have "cancelled (resume (length gs) w') = insert n (cancelled w')"
    by (simp add: resume_def)
  then show ?thesis using f by (simp add: ctx_done_child)
qed

lemma invoke_trigger:
  assumes "gates_ok (signaller w)"
  shows "\<exists>w'. on_signaller (trigger t) w = Inr (R_None, w') \<and>
           (\<forall>sg. signalled sg (signaller w') = (signalled sg (signaller w) \<or> covers t sg)) \<and>
           gates_ok (signaller w') \<and>
           cancelled w' = cancelled w \<and> next_ctx w' = next_ctx w \<and> goroutines w' = goroutines w"
proof -
  from invoke_trigger_closed_form [OF assms, of t] obtain w' where
    w': "on_signaller (trigger t) w = Inr (R_None, w')" "gates_ok (signaller w')"
        "\<forall>sg. signalled sg (signaller w') = (signalled sg (signaller w) \<or> covers t sg)"
    by blast
  with on_signaller_frame [OF w'(1)] show ?thesis by blast
qed

lemma stop_ctx_eq:
  assumes "stop_ctx sg parent w = ((c, cancel), w1)"
  shows "c = CancelCtx (next_ctx w) parent" and "cancel = CancelFunc (next_ctx w)"
    and "w1 = snd (stop_ctx sg parent w)"
    and "goroutines w1 = goroutines w @ [(c, sg, cancel)]"
    and "signaller w1 = signaller w" and "cancelled w1 = cancelled w"
  using assms by (auto simp: stop_ctx_result)

text \<open>A trigger that does not give the watcher's signal leaves the derived scope alone.\<close>

lemma watcher_stays_blocked:
  assumes "gates_ok (signaller w)" and "blocked sg n parent w" and "\<not> ctx_done w parent"
    and "\<not> covers t sg"
  shows "\<exists>w'. on_signaller (trigger t) w = Inr (R_None, w') \<and>
           gates_ok (signaller w') \<and> goroutines w' = goroutines w \<and>
           \<not> ctx_done w' (CancelCtx n parent) \<and>
           (\<forall>ks. \<not> ctx_done (resumes ks w') parent \<longrightarrow>
                 \<not> ctx_done (resumes ks w') (CancelCtx n parent))"
proof -
  from invoke_trigger [OF assms(1), of t] obtain w' where
    w': "on_signaller (trigger t) w = Inr (R_None, w')"
        "\<forall>sg. signalled sg (signaller w') = (signalled sg (signaller w) \<or> covers t sg)"
        "gates_ok (signaller w')" "cancelled w' = cancelled w" "goroutines w' = goroutines w"
    by blast
  from assms(2) have "\<not> signalled sg (signaller w)" by (simp add: blocked_def)
  with w'(2) assms(4) have "\<not> signalled sg (signaller w')" by simp
  then have b: "blocked sg n parent w'"
    by (rule blocked_on_signaller [OF assms(2) w'(1)])
  have "\<not> ctx_done w' parent" using assms(3) w'(4) by (simp add: ctx_done_def)
  with b have "\<not> ctx_done w' (CancelCtx n parent)" by (rule blocked_not_done)
  moreover have "\<forall>ks. \<not> ctx_done (resumes ks w') parent \<longrightarrow>
                 \<not> ctx_done (resumes ks w') (CancelCtx n parent)"
    using blocked_resumes [OF b] blocked_not_done by blast
  ultimately show ?thesis using w'(1,3,5) by blast
qed

text \<open>A trigger that gives the watcher's signal cancels the derived scope.\<close>

lemma watcher_fires:
  assumes "gates_ok (signaller w)"
    and "goroutines w = gs @ [(CancelCtx n parent, sg, CancelFunc n)]"
    and "covers t sg"
  shows "\<exists>w'. on_signaller (trigger t) w = Inr (R_None, w') \<and>
           (\<forall>ks. ctx_done (resumes ks w') (CancelCtx n parent) \<or>
                 ((CancelCtx n parent, sg, CancelFunc n) \<in> set (goroutines (resumes ks w')) \<and>
                  runnable (resumes ks w') (CancelCtx n parent, sg, CancelFunc n))) \<and>
           (\<forall>ks. quiescent (resumes ks w') \<longrightarrow> ctx_done (resumes ks w') (CancelCtx n parent)) \<and>
           ctx_done (resume (length gs) w') (CancelCtx n parent)"
proof -
  from invoke_trigger [OF assms(1), of t] obtain w' where
    w': "on_signaller (trigger t) w = Inr (R_None, w')"
        "\<forall>sg. signalled sg (signaller w') = (signalled sg (signaller w) \<or> covers t sg)"
    by blast
  with assms(3) have "signalled sg (signaller w')" by simp
  from firing_on_signaller [OF w'(1) assms(2) this]
  have f: "firing sg n parent w'"
    and d: "ctx_done (resume (length gs) w') (CancelCtx n parent)" by simp_all
  have "firing sg n parent (resumes ks w')" for ks by (rule firing_resumes [OF f])
  then show ?thesis using w'(1) d firing_runnable firing_quiescent by blast
qed

lemma call_cancel_twice: "call_cancel f (call_cancel f w) = call_cancel f w"
  by (cases f) simp

lemma run_replicate_Cancel:
  "run (replicate k (Cancel f)) w = Inr (if k = 0 then w else call_cancel f w)"
  by (induction k arbitrary: w) (simp_all add: call_cancel_twice)

lemmas world_defs = new_world_def NewSignaller_def on_signaller_def scope_reply_def
  SoftStopCtx_def HardStopCtx_def HasStoppedCtx_def stop_ctx_result WithCancel_def
  ctx_exists_def ctx_done_def

section \<open>Escalation (C1)\<close>

text \<open>
  C1. On a Signaller in any state it can be in, TriggerHardStop returns (it does not
  panic), and afterwards IsSoftStopSignalled and IsHardStopSignalled are both true and
  the soft-stop and the hard-stop channel are both closed. The state it leaves is the
  one TriggerSoftStop leaves, with the hard-stop gate fired on top.
\<close>

theorem hard_stop_escalates:
  assumes "signaller_state s"
  shows "\<exists>s1 s2. TriggerSoftStop s = Inr s1 \<and> TriggerHardStop s = Inr s2 \<and>
           s2 = s1\<lparr>hardStopChan := Closed, hardStopOnce := True\<rparr> \<and>
           IsSoftStopSignalled s2 \<and> IsHardStopSignalled s2 \<and>
           SoftStopChan s2 = Closed \<and> HardStopChan s2 = Closed"
proof -
  from assms have "gates_ok s" by (simp add: signaller_state_gates)
  then show ?thesis
    by (auto simp: TriggerHardStop_def TriggerSoftStop_def gates_ok_def gate_ok_def query_defs)
qed

theorem hard_stop_escalates_witness:
  "signaller_state NewSignaller \<and>
   TriggerHardStop NewSignaller =
     Inr \<lparr> softStopChan = Closed, softStopOnce = True,
           hardStopChan = Closed, hardStopOnce = True,
           hasStoppedChan = Open, hasStoppedOnce = False \<rparr> \<and>
   IsSoftStopSignalled
     \<lparr> softStopChan = Closed, softStopOnce = True,
       hardStopChan = Closed, hardStopOnce = True,
       hasStoppedChan = Open, hasStoppedOnce = False \<rparr>"
proof -
  have r: "signaller_state NewSignaller" by (rule fresh_state)
  have e: "TriggerHardStop NewSignaller =
     Inr \<lparr> softStopChan = Closed, softStopOnce = True,
           hardStopChan = Closed, hardStopOnce = True,
           hasStoppedChan = Open, hasStoppedOnce = False \<rparr>"
    by (simp add: NewSignaller_def trigger_defs)
  from hard_stop_escalates [OF r] e have "IsSoftStopSignalled
     \<lparr> softStopChan = Closed, softStopOnce = True,
       hardStopChan = Closed, hardStopOnce = True,
       hasStoppedChan = Open, hasStoppedOnce = False \<rparr>"
    by auto
  with r e show ?thesis by simp
qed

section \<open>Idempotence (C2)\<close>

text \<open>
  C2. In every reachable world, a trigger whose flag is already set is a no-op: the
  Signaller after the call equals the Signaller before it, for each of TriggerSoftStop,
  TriggerHardStop and TriggerHasStopped; calling any trigger a second time changes
  nothing; and along any sequence of events the number of steps at which a flag goes
  from unset to set is one when the flag was unset and an event of the sequence gives
  it, and zero otherwise. No flag is ever set twice.
\<close>

theorem triggers_idempotent:
  assumes "reachable w"
  shows "(IsSoftStopSignalled (signaller w) \<longrightarrow> TriggerSoftStop (signaller w) = Inr (signaller w)) \<and>
         (IsHardStopSignalled (signaller w) \<longrightarrow> TriggerHardStop (signaller w) = Inr (signaller w)) \<and>
         (IsHasStoppedSignalled (signaller w) \<longrightarrow>
            TriggerHasStopped (signaller w) = Inr (signaller w)) \<and>
         (\<exists>s'. trigger t (signaller w) = Inr s' \<and> trigger t s' = Inr s') \<and>
         risings (\<lambda>w. signalled sg (signaller w)) (history es w) =
           (if \<not> signalled sg (signaller w) \<and> (\<exists>e \<in> set es. raises e sg) then 1 else 0)"
proof -
  let ?s = "signaller w"
  have g: "gates_ok ?s" and e: "escalated ?s"
    using assms by (simp_all add: reachable_gates reachable_escalated)
  have n: "signalled u ?s \<Longrightarrow> trigger u ?s = Inr ?s" for u
    by (rule trigger_set_noop [OF g e])
  from trigger_closed_form [OF g, of t] obtain s' where
    s': "trigger t ?s = Inr s'" "gates_ok s'"
        "\<And>sg. signalled sg s' = (signalled sg ?s \<or> covers t sg)" by blast
  from trigger_closed_form [OF s'(2), of t] obtain s'' where
    s'': "trigger t s' = Inr s''" "gates_ok s''"
        "\<And>sg. signalled sg s'' = (signalled sg s' \<or> covers t sg)" by blast
  have "s'' = s'" by (rule gates_ok_eqI [OF s'(2) s''(2)]) (auto simp: s'(3) s''(3))
  with s'(1) s''(1) have twice: "\<exists>s'. trigger t ?s = Inr s' \<and> trigger t s' = Inr s'" by simp
  from n [of SoftStop] n [of HardStop] n [of HasStopped] twice risings_history [OF g, of sg es]
  show ?thesis by (simp add: signalled_def)
qed

theorem triggers_idempotent_witness:
  "TriggerHardStop
     \<lparr> softStopChan = Closed, softStopOnce = True, hardStopChan = Closed, hardStopOnce = True,
       hasStoppedChan = Open, hasStoppedOnce = False \<rparr> =
   Inr \<lparr> softStopChan = Closed, softStopOnce = True, hardStopChan = Closed, hardStopOnce = True,
         hasStoppedChan = Open, hasStoppedOnce = False \<rparr> \<and>
   risings (\<lambda>w. signalled SoftStop (signaller w))
     (history [Invoke M_TriggerSoftStop, Invoke M_TriggerHardStop, Invoke M_TriggerSoftStop]
        new_world) = 1"
proof -
  let ?hs = "\<lparr> softStopChan = Closed, softStopOnce = True,
               hardStopChan = Closed, hardStopOnce = True,
               hasStoppedChan = Open, hasStoppedOnce = False \<rparr>"
  let ?w = "\<lparr> signaller = ?hs, cancelled = {}, next_ctx = 0, goroutines = [] \<rparr>"
  let ?es = "[Invoke M_TriggerSoftStop, Invoke M_TriggerHardStop, Invoke M_TriggerSoftStop]"
  have f: "fire (Invoke M_TriggerHardStop) new_world = Inr ?w"
    by (simp add: world_defs trigger_defs)
  have r: "reachable ?w"
    by (rule reachable_fire [OF reachable_new _ f]) (simp add: ctx_exists_def)
  have q: "IsHardStopSignalled ?hs" by (simp add: query_defs)
  from triggers_idempotent [OF r, of HardStop SoftStop "[]"] q
  have a: "TriggerHardStop ?hs = Inr ?hs" by simp
  have n: "\<not> signalled SoftStop (signaller new_world)"
    by (simp add: signalled_def query_defs world_defs)
  have "\<exists>e \<in> set ?es. raises e SoftStop" by simp
  with n triggers_idempotent [OF reachable_new, of SoftStop SoftStop ?es]
  have b: "risings (\<lambda>w. signalled SoftStop (signaller w)) (history ?es new_world) = 1"
    by presburger
  from a b show ?thesis by (rule conjI)
qed

section \<open>The escalation invariant (C3)\<close>

text \<open>
  C3. "Hard stop signalled implies soft stop signalled" holds of the new Signaller and
  of the Signaller of every reachable world, so no reachable state has hardStop set
  with softStop unset; and from a reachable world every public operation (the three
  triggers, the three queries, the three channel accessors, the three scope
  constructors) returns and leaves a Signaller of which it holds again.
\<close>

theorem escalation_invariant:
  "escalated NewSignaller \<and>
   (reachable w \<longrightarrow>
      escalated (signaller w) \<and>
      \<not> (IsHardStopSignalled (signaller w) \<and> \<not> IsSoftStopSignalled (signaller w)) \<and>
      (\<forall>m. \<exists>r w'. invoke m w = Inr (r, w') \<and> escalated (signaller w')))"
proof (intro conjI impI allI)
  show "escalated NewSignaller" by (rule escalated_NewSignaller)
next
  assume "reachable w"
  then show "escalated (signaller w)" by (rule reachable_escalated)
next
  assume "reachable w"
  then have "escalated (signaller w)" by (rule reachable_escalated)
  then show "\<not> (IsHardStopSignalled (signaller w) \<and> \<not> IsSoftStopSignalled (signaller w))"
    by (simp add: escalated_def)
next
  fix m
  assume r: "reachable w"
  from fire_closed_form [OF reachable_gates [OF r], of "Invoke m"]
  obtain w' where w': "fire (Invoke m) w = Inr w'" by blast
  then obtain rep where "invoke m w = Inr (rep, w')" using fire_Invoke_Inr by blast
  moreover have "escalated (signaller w')"
    using fire_keeps_escalated [OF reachable_gates [OF r] reachable_escalated [OF r] w'] .
  ultimately show "\<exists>r w'. invoke m w = Inr (r, w') \<and> escalated (signaller w')" by blast
qed

theorem escalation_invariant_witness:
  "reachable \<lparr> signaller =
       \<lparr> softStopChan = Closed, softStopOnce = True, hardStopChan = Closed, hardStopOnce = True,
         hasStoppedChan = Open, hasStoppedOnce = False \<rparr>,
       cancelled = {}, next_ctx = 0, goroutines = [] \<rparr> \<and>
   IsHardStopSignalled
     \<lparr> softStopChan = Closed, softStopOnce = True, hardStopChan = Closed, hardStopOnce = True,
       hasStoppedChan = Open, hasStoppedOnce = False \<rparr> \<and>
   escalated
     \<lparr> softStopChan = Closed, softStopOnce = True, hardStopChan = Closed, hardStopOnce = True,
       hasStoppedChan = Open, hasStoppedOnce = False \<rparr>"
proof -
  let ?hs = "\<lparr> softStopChan = Closed, softStopOnce = True,
               hardStopChan = Closed, hardStopOnce = True,
               hasStoppedChan = Open, hasStoppedOnce = False \<rparr>"
  let ?w = "\<lparr> signaller = ?hs, cancelled = {}, next_ctx = 0, goroutines = [] \<rparr>"
  have f: "fire (Invoke M_TriggerHardStop) new_world = Inr ?w"
    by (simp add: world_defs trigger_defs)
  have r: "reachable ?w"
    by (rule reachable_fire [OF reachable_new _ f]) (simp add: ctx_exists_def)
  have q: "IsHardStopSignalled ?hs" by (simp add: query_defs)
  from escalation_invariant [of ?w] r have "escalated ?hs" by simp
  with r q show ?thesis by simp
qed

section \<open>Derived scopes (C4, C5, C9)\<close>

text \<open>
  C4. Take a reachable world in which hard stop has not been signalled, and a parent
  context that exists and is not cancelled. The scope \<open>c\<close> that HardStopCtx derives
  is not cancelled; after TriggerSoftStop it is still not cancelled, and whichever
  goroutines the scheduler resumes, in whatever order, it stays uncancelled for as long
  as its parent does. After a subsequent TriggerHardStop, under every schedule the scope
  is cancelled or its watcher is still present and able to run; it is cancelled in every
  world in which no goroutine can run any more; and resuming its watcher cancels it.
\<close>

theorem hard_stop_ctx_soft_then_hard:
  assumes "reachable w" and "ctx_exists w parent" and "\<not> ctx_done w parent"
    and "\<not> IsHardStopSignalled (signaller w)"
    and "HardStopCtx parent w = ((c, cancel), w1)"
  shows "\<not> ctx_done w1 c \<and>
         (\<exists>w2. invoke M_TriggerSoftStop w1 = Inr (R_None, w2) \<and>
            \<not> ctx_done w2 c \<and>
            (\<forall>ks. \<not> ctx_done (resumes ks w2) parent \<longrightarrow> \<not> ctx_done (resumes ks w2) c) \<and>
            (\<exists>w3. invoke M_TriggerHardStop w2 = Inr (R_None, w3) \<and>
               (\<forall>ks. ctx_done (resumes ks w3) c \<or>
                     ((c, HardStop, cancel) \<in> set (goroutines (resumes ks w3)) \<and>
                      runnable (resumes ks w3) (c, HardStop, cancel))) \<and>
               (\<forall>ks. quiescent (resumes ks w3) \<longrightarrow> ctx_done (resumes ks w3) c) \<and>
               ctx_done (resume (length (goroutines w)) w3) c))"
proof -
  let ?n = "next_ctx w"
  from assms(5) have e: "stop_ctx HardStop parent w = ((c, cancel), w1)"
    by (simp add: HardStopCtx_def)
  note eq = stop_ctx_eq [OF e]
  have ok: "world_ok w" and g: "gates_ok (signaller w)"
    using assms(1) by (simp_all add: reachable_world_ok reachable_gates)
  have h: "\<not> signalled HardStop (signaller w)" using assms(4) by (simp add: signalled_def)
  have b1: "blocked HardStop ?n parent w1"
    unfolding eq(3) by (rule blocked_stop_ctx [OF ok h])
  have p1: "\<not> ctx_done w1 parent" using assms(3) eq(6) by (simp add: ctx_done_def)
  have g1: "gates_ok (signaller w1)" using g eq(5) by simp
  have d1: "\<not> ctx_done w1 c" unfolding eq(1) by (rule blocked_not_done [OF b1 p1])
  from watcher_stays_blocked [OF g1 b1 p1, of SoftStop] obtain w2 where
    w2: "on_signaller (trigger SoftStop) w1 = Inr (R_None, w2)"
        "gates_ok (signaller w2)" "goroutines w2 = goroutines w1"
        "\<not> ctx_done w2 c"
        "\<forall>ks. \<not> ctx_done (resumes ks w2) parent \<longrightarrow> \<not> ctx_done (resumes ks w2) c"
    unfolding eq(1) by auto
  have gs: "goroutines w2 = goroutines w @ [(CancelCtx ?n parent, HardStop, CancelFunc ?n)]"
    using w2(3) eq(4) eq(1,2) by simp
  from watcher_fires [OF w2(2) gs, of HardStop] obtain w3 where
    w3: "on_signaller (trigger HardStop) w2 = Inr (R_None, w3)"
        "\<forall>ks. ctx_done (resumes ks w3) c \<or>
              ((c, HardStop, cancel) \<in> set (goroutines (resumes ks w3)) \<and>
               runnable (resumes ks w3) (c, HardStop, cancel))"
        "\<forall>ks. quiescent (resumes ks w3) \<longrightarrow> ctx_done (resumes ks w3) c"
        "ctx_done (resume (length (goroutines w)) w3) c"
    unfolding eq(1,2) by auto
  from w2(1) have i2: "invoke M_TriggerSoftStop w1 = Inr (R_None, w2)"
    by (simp add: trigger_funs)
  from w3(1) have i3: "invoke M_TriggerHardStop w2 = Inr (R_None, w3)"
    by (simp add: trigger_funs)
  from d1 i2 w2(4,5) i3 w3(2,3,4) show ?thesis by blast
qed

theorem hard_stop_ctx_soft_then_hard_witness:
  "\<exists>w1 w2 w3.
     run [Derive Background, Invoke (M_HardStopCtx (CancelCtx 0 Background))] new_world = Inr w1 \<and>
     \<not> ctx_done w1 (CancelCtx 1 (CancelCtx 0 Background)) \<and>
     invoke M_TriggerSoftStop w1 = Inr (R_None, w2) \<and>
     \<not> ctx_done (resumes [0] w2) (CancelCtx 1 (CancelCtx 0 Background)) \<and>
     invoke M_TriggerHardStop w2 = Inr (R_None, w3) \<and>
     ctx_done (resume 0 w3) (CancelCtx 1 (CancelCtx 0 Background))"
proof -
  let ?p = "CancelCtx 0 Background"
  let ?c = "CancelCtx 1 ?p"
  let ?g = "[(?c, HardStop, CancelFunc 1)]"
  let ?w0 = "\<lparr> signaller = NewSignaller, cancelled = {}, next_ctx = Suc 0, goroutines = [] \<rparr>"
  let ?w1 = "\<lparr> signaller = NewSignaller, cancelled = {}, next_ctx = Suc (Suc 0),
               goroutines = ?g \<rparr>"
  have f: "fire (Derive Background) new_world = Inr ?w0"
    by (simp add: new_world_def WithCancel_def)
  have r: "reachable ?w0"
    by (rule reachable_fire [OF reachable_new _ f]) (simp add: ctx_exists_def)
  have a: "ctx_exists ?w0 ?p" by (simp add: ctx_exists_def)
  have b: "\<not> ctx_done ?w0 ?p" by (simp add: ctx_done_def recv_ready_def)
  have h: "\<not> IsHardStopSignalled (signaller ?w0)" by (simp add: query_defs NewSignaller_def)
  have e: "HardStopCtx ?p ?w0 = ((?c, CancelFunc 1), ?w1)"
    by (simp add: HardStopCtx_def stop_ctx_result)
  have r1: "run [Derive Background, Invoke (M_HardStopCtx ?p)] new_world = Inr ?w1"
    using f e by (simp add: scope_reply_def)
  from hard_stop_ctx_soft_then_hard [OF r a b h e] obtain w2 w3 where
    t: "\<not> ctx_done ?w1 ?c" "invoke M_TriggerSoftStop ?w1 = Inr (R_None, w2)"
       "\<forall>ks. \<not> ctx_done (resumes ks w2) ?p \<longrightarrow> \<not> ctx_done (resumes ks w2) ?c"
       "invoke M_TriggerHardStop w2 = Inr (R_None, w3)"
       "ctx_done (resume (length (goroutines ?w0)) w3) ?c"
    by blast
  from t(2) have w2: "cancelled w2 = {}" "goroutines w2 = ?g"
       "signaller w2 = NewSignaller\<lparr>softStopChan := Closed, softStopOnce := True\<rparr>"
    by (auto simp: on_signaller_def TriggerSoftStop_def NewSignaller_def split: sum.splits)
  have "\<not> runnable w2 (?c, HardStop, CancelFunc 1)"
    by (simp add: w2 recv_ready_def signal_chan_def NewSignaller_def)
  then have "resume 0 w2 = w2" by (simp add: resume_def w2)
  then have "\<not> ctx_done (resumes [0] w2) ?p" by (simp add: ctx_done_def recv_ready_def w2)
  with t(3) have "\<not> ctx_done (resumes [0] w2) ?c" by blast
  with r1 t(1,2,4,5) show ?thesis by auto
qed

text \<open>
  C5. Take a reachable world in which soft stop has not been signalled, and a parent
  context that exists and is not cancelled. The watcher that SoftStopCtx starts waits on
  the soft-stop channel only. After TriggerHardStop, under every schedule the derived
  scope is cancelled or its watcher is still present and able to run; it is cancelled in
  every world in which no goroutine can run any more; and resuming its watcher cancels
  it. After TriggerHasStopped instead, the scope is not cancelled, and under every
  schedule it stays uncancelled for as long as its parent does.
\<close>

theorem soft_stop_ctx_hard_not_has_stopped:
  assumes "reachable w" and "ctx_exists w parent" and "\<not> ctx_done w parent"
    and "\<not> IsSoftStopSignalled (signaller w)"
    and "SoftStopCtx parent w = ((c, cancel), w1)"
  shows "\<not> ctx_done w1 c \<and> goroutines w1 = goroutines w @ [(c, SoftStop, cancel)] \<and>
         (\<exists>w2. invoke M_TriggerHardStop w1 = Inr (R_None, w2) \<and>
            (\<forall>ks. ctx_done (resumes ks w2) c \<or>
                  ((c, SoftStop, cancel) \<in> set (goroutines (resumes ks w2)) \<and>
                   runnable (resumes ks w2) (c, SoftStop, cancel))) \<and>
            (\<forall>ks. quiescent (resumes ks w2) \<longrightarrow> ctx_done (resumes ks w2) c) \<and>
            ctx_done (resume (length (goroutines w)) w2) c) \<and>
         (\<exists>w2. invoke M_TriggerHasStopped w1 = Inr (R_None, w2) \<and>
            \<not> ctx_done w2 c \<and>
            (\<forall>ks. \<not> ctx_done (resumes ks w2) parent \<longrightarrow> \<not> ctx_done (resumes ks w2) c))"
proof -
  let ?n = "next_ctx w"
  from assms(5) have e: "stop_ctx SoftStop parent w = ((c, cancel), w1)"
    by (simp add: SoftStopCtx_def)
  note eq = stop_ctx_eq [OF e]
  have ok: "world_ok w" and g: "gates_ok (signaller w)"
    using assms(1) by (simp_all add: reachable_world_ok reachable_gates)
  have h: "\<not> signalled SoftStop (signaller w)" using assms(4) by (simp add: signalled_def)
  have b1: "blocked SoftStop ?n parent w1"
    unfolding eq(3) by (rule blocked_stop_ctx [OF ok h])
  have p1: "\<not> ctx_done w1 parent" using assms(3) eq(6) by (simp add: ctx_done_def)
  have g1: "gates_ok (signaller w1)" using g eq(5) by simp
  have d1: "\<not> ctx_done w1 c" unfolding eq(1) by (rule blocked_not_done [OF b1 p1])
  have gs: "goroutines w1 = goroutines w @ [(CancelCtx ?n parent, SoftStop, CancelFunc ?n)]"
    using eq(4) eq(1,2) by simp
  from watcher_fires [OF g1 gs, of HardStop] obtain w2 where
    w2: "on_signaller (trigger HardStop) w1 = Inr (R_None, w2)"
        "\<forall>ks. ctx_done (resumes ks w2) c \<or>
              ((c, SoftStop, cancel) \<in> set (goroutines (resumes ks w2)) \<and>
               runnable (resumes ks w2) (c, SoftStop, cancel))"
        "\<forall>ks. quiescent (resumes ks w2) \<longrightarrow> ctx_done (resumes ks w2) c"
        "ctx_done (resume (length (goroutines w)) w2) c"
    unfolding eq(1,2) by auto
  from watcher_stays_blocked [OF g1 b1 p1, of HasStopped] obtain w3 where
    w3: "on_signaller (trigger HasStopped) w1 = Inr (R_None, w3)"
        "\<not> ctx_done w3 c"
        "\<forall>ks. \<not> ctx_done (resumes ks w3) parent \<longrightarrow> \<not> ctx_done (resumes ks w3) c"
    unfolding eq(1) by auto
  from w2(1) have i2: "invoke M_TriggerHardStop w1 = Inr (R_None, w2)"
    by (simp add: trigger_funs)
  from w3(1) have i3: "invoke M_TriggerHasStopped w1 = Inr (R_None, w3)"
    by (simp add: trigger_funs)
  from d1 eq(4) i2 w2(2,3,4) i3 w3(2,3) show ?thesis by blast
qed

theorem soft_stop_ctx_hard_not_has_stopped_witness:
  "\<exists>w1 w2 w3.
     run [Derive Background, Invoke (M_SoftStopCtx (CancelCtx 0 Background))] new_world = Inr w1 \<and>
     \<not> ctx_done w1 (CancelCtx 1 (CancelCtx 0 Background)) \<and>
     invoke M_TriggerHardStop w1 = Inr (R_None, w2) \<and>
     ctx_done (resume 0 w2) (CancelCtx 1 (CancelCtx 0 Background)) \<and>
     invoke M_TriggerHasStopped w1 = Inr (R_None, w3) \<and>
     \<not> ctx_done (resumes [0] w3) (CancelCtx 1 (CancelCtx 0 Background))"
proof -
  let ?p = "CancelCtx 0 Background"
  let ?c = "CancelCtx 1 ?p"
  let ?g = "[(?c, SoftStop, CancelFunc 1)]"
  let ?w0 = "\<lparr> signaller = NewSignaller, cancelled = {}, next_ctx = Suc 0, goroutines = [] \<rparr>"
  let ?w1 = "\<lparr> signaller = NewSignaller, cancelled = {}, next_ctx = Suc (Suc 0),
               goroutines = ?g \<rparr>"
  have f: "fire (Derive Background) new_world = Inr ?w0"
    by (simp add: new_world_def WithCancel_def)
  have r: "reachable ?w0"
    by (rule reachable_fire [OF reachable_new _ f]) (simp add: ctx_exists_def)
  have a: "ctx_exists ?w0 ?p" by (simp add: ctx_exists_def)
  have b: "\<not> ctx_done ?w0 ?p" by (simp add: ctx_done_def recv_ready_def)
  have h: "\<not> IsSoftStopSignalled (signaller ?w0)" by (simp add: query_defs NewSignaller_def)
  have e: "SoftStopCtx ?p ?w0 = ((?c, CancelFunc 1), ?w1)"
    by (simp add: SoftStopCtx_def stop_ctx_result)
  have r1: "run [Derive Background, Invoke (M_SoftStopCtx ?p)] new_world = Inr ?w1"
    using f e by (simp add: scope_reply_def)
  from soft_stop_ctx_hard_not_has_stopped [OF r a b h e] obtain w2 w3 where
    t: "\<not> ctx_done ?w1 ?c" "invoke M_TriggerHardStop ?w1 = Inr (R_None, w2)"
       "ctx_done (resume (length (goroutines ?w0)) w2) ?c"
       "invoke M_TriggerHasStopped ?w1 = Inr (R_None, w3)"
       "\<forall>ks. \<not> ctx_done (resumes ks w3) ?p \<longrightarrow> \<not> ctx_done (resumes ks w3) ?c"
    by blast
  from t(4) have w3: "cancelled w3 = {}" "goroutines w3 = ?g"
       "signaller w3 = NewSignaller\<lparr>hasStoppedChan := Closed, hasStoppedOnce := True\<rparr>"
    by (auto simp: on_signaller_def TriggerHasStopped_def NewSignaller_def split: sum.splits)
  have "\<not> runnable w3 (?c, SoftStop, CancelFunc 1)"
    by (simp add: w3 recv_ready_def signal_chan_def NewSignaller_def)
  then have "resume 0 w3 = w3" by (simp add: resume_def w3)
  then have "\<not> ctx_done (resumes [0] w3) ?p" by (simp add: ctx_done_def recv_ready_def w3)
  with t(5) have "\<not> ctx_done (resumes [0] w3) ?c" by blast
  with r1 t(1,2,3,4) show ?thesis by auto
qed

text \<open>
  C9. Let \<open>cancel\<close> be the release function returned with a scope by SoftStopCtx,
  HardStopCtx or HasStoppedCtx for an existing parent, and let any events at all follow
  (the parent cancelled, triggers, goroutines resumed, earlier releases). Calling
  \<open>cancel\<close> any number \<open>k\<close> of times then returns without a panic, leaves the parent
  cancelled exactly if it was, and leaves the Signaller as it was; for \<open>k > 0\<close> the
  scope is cancelled and the world is the one a single call leaves.
\<close>

theorem release_idempotent:
  assumes "ctx_exists w parent"
    and "SoftStopCtx parent w = ((c, cancel), w1) \<or>
         HardStopCtx parent w = ((c, cancel), w1) \<or>
         HasStoppedCtx parent w = ((c, cancel), w1)"
    and "run es w1 = Inr w2"
  shows "\<exists>w3. run (replicate k (Cancel cancel)) w2 = Inr w3 \<and>
           ctx_done w3 parent = ctx_done w2 parent \<and>
           signaller w3 = signaller w2 \<and>
           (0 < k \<longrightarrow> ctx_done w3 c \<and> w3 = call_cancel cancel w2)"
proof -
  from assms(2) obtain sg where "stop_ctx sg parent w = ((c, cancel), w1)"
    by (auto simp: SoftStopCtx_def HardStopCtx_def HasStoppedCtx_def)
  note eq = stop_ctx_eq [OF this]
  let ?w3 = "if k = 0 then w2 else call_cancel cancel w2"
  have r: "run (replicate k (Cancel cancel)) w2 = Inr ?w3" by (rule run_replicate_Cancel)
  have "ctx_below (next_ctx w) parent" using assms(1) by (simp add: ctx_exists_def)
  then have "ctx_done (call_cancel cancel w2) parent = ctx_done w2 parent"
    by (simp add: eq(2) ctx_done_def Done_insert_fresh)
  moreover have "ctx_done (call_cancel cancel w2) c"
    by (simp add: eq(1,2) ctx_done_child)
  ultimately show ?thesis using r by simp
qed

theorem release_idempotent_witness:
  "\<exists>w1 w2 w3.
     run [Derive Background, Invoke (M_SoftStopCtx (CancelCtx 0 Background))] new_world = Inr w1 \<and>
     run [Invoke M_TriggerSoftStop, Resume 0] w1 = Inr w2 \<and>
     ctx_done w2 (CancelCtx 1 (CancelCtx 0 Background)) \<and>
     run [Cancel (CancelFunc 1), Cancel (CancelFunc 1)] w2 = Inr w3 \<and>
     \<not> ctx_done w3 (CancelCtx 0 Background) \<and>
     ctx_done w3 (CancelCtx 1 (CancelCtx 0 Background))"
proof -
  let ?p = "CancelCtx 0 Background"
  let ?c = "CancelCtx 1 ?p"
  let ?g = "[(?c, SoftStop, CancelFunc 1)]"
  let ?w0 = "\<lparr> signaller = NewSignaller, cancelled = {}, next_ctx = Suc 0, goroutines = [] \<rparr>"
  let ?w1 = "\<lparr> signaller = NewSignaller, cancelled = {}, next_ctx = Suc (Suc 0),
               goroutines = ?g \<rparr>"
  let ?w2 = "\<lparr> signaller = NewSignaller\<lparr>softStopChan := Closed, softStopOnce := True\<rparr>,
               cancelled = {1}, next_ctx = Suc (Suc 0), goroutines = [] \<rparr>"
  have f: "fire (Derive Background) new_world = Inr ?w0"
    by (simp add: new_world_def WithCancel_def)
  have a: "ctx_exists ?w0 ?p" by (simp add: ctx_exists_def)
  have e: "SoftStopCtx ?p ?w0 = ((?c, CancelFunc 1), ?w1)"
    by (simp add: SoftStopCtx_def stop_ctx_result)
  have r1: "run [Derive Background, Invoke (M_SoftStopCtx ?p)] new_world = Inr ?w1"
    using f e by (simp add: scope_reply_def)
  have r2: "run [Invoke M_TriggerSoftStop, Resume 0] ?w1 = Inr ?w2"
    by (simp add: on_signaller_def TriggerSoftStop_def NewSignaller_def resume_def
          recv_ready_def signal_chan_def)
  have d2: "ctx_done ?w2 ?c" "\<not> ctx_done ?w2 ?p" by (simp_all add: ctx_done_def recv_ready_def)
  have "replicate 2 (Cancel (CancelFunc 1)) = [Cancel (CancelFunc 1), Cancel (CancelFunc 1)]"
    by (simp add: numeral_2_eq_2)
  with release_idempotent [OF a disjI1 [OF e] r2, of 2] d2 obtain w3 where
    "run [Cancel (CancelFunc 1), Cancel (CancelFunc 1)] ?w2 = Inr w3"
    "\<not> ctx_done w3 ?p" "ctx_done w3 ?c"
    by auto
  with r1 r2 d2 show ?thesis by blast
qed

section \<open>Queries and channels (C6)\<close>

text \<open>
  C6. In every Signaller state, each query is true exactly when the channel of its flag
  is closed, that is, exactly when a receive on the channel that the accessor returns
  can proceed.
\<close>

theorem query_matches_handle:
  "IsSoftStopSignalled s = (SoftStopChan s = Closed) \<and>
   IsHardStopSignalled s = (HardStopChan s = Closed) \<and>
   IsHasStoppedSignalled s = (HasStoppedChan s = Closed) \<and>
   IsSoftStopSignalled s = recv_ready (SoftStopChan s) \<and>
   IsHardStopSignalled s = recv_ready (HardStopChan s) \<and>
   IsHasStoppedSignalled s = recv_ready (HasStoppedChan s)"
  by (simp add: IsSoftStopSignalled_def IsHardStopSignalled_def IsHasStoppedSignalled_def
                select_default_def recv_ready_def)

section \<open>Monotonicity (C7)\<close>

text \<open>
  C7. From a reachable world, every sequence of events (calls, cancellations,
  new contexts, resumed goroutines) runs to the end without a panic, and each flag that
  was set before is set after: a query that returned true returns true, a channel that
  was closed is closed.
\<close>

theorem flags_monotone:
  assumes "reachable w"
  shows "\<exists>w'. run es w = Inr w' \<and>
           (IsSoftStopSignalled (signaller w) \<longrightarrow> IsSoftStopSignalled (signaller w')) \<and>
           (IsHardStopSignalled (signaller w) \<longrightarrow> IsHardStopSignalled (signaller w')) \<and>
           (IsHasStoppedSignalled (signaller w) \<longrightarrow> IsHasStoppedSignalled (signaller w')) \<and>
           (SoftStopChan (signaller w) = Closed \<longrightarrow> SoftStopChan (signaller w') = Closed) \<and>
           (HardStopChan (signaller w) = Closed \<longrightarrow> HardStopChan (signaller w') = Closed) \<and>
           (HasStoppedChan (signaller w) = Closed \<longrightarrow> HasStoppedChan (signaller w') = Closed)"
proof -
  from run_closed_form [OF reachable_gates [OF assms], of es] obtain w' where
    w': "run es w = Inr w'"
        "\<And>sg. signalled sg (signaller w') =
               (signalled sg (signaller w) \<or> (\<exists>e \<in> set es. raises e sg))"
    by blast
  from w'(2) [of SoftStop] w'(2) [of HardStop] w'(2) [of HasStopped]
  have "signalled SoftStop (signaller w) \<longrightarrow> signalled SoftStop (signaller w')"
       "signalled HardStop (signaller w) \<longrightarrow> signalled HardStop (signaller w')"
       "signalled HasStopped (signaller w) \<longrightarrow> signalled HasStopped (signaller w')"
    by simp_all
  then have "softStopChan (signaller w) = Closed \<longrightarrow> softStopChan (signaller w') = Closed"
       "hardStopChan (signaller w) = Closed \<longrightarrow> hardStopChan (signaller w') = Closed"
       "hasStoppedChan (signaller w) = Closed \<longrightarrow> hasStoppedChan (signaller w') = Closed"
    by (simp_all add: signalled_simps)
  with w'(1) show ?thesis
    by (auto simp: query_defs)
qed

theorem flags_monotone_witness:
  "\<exists>w'. run [Invoke M_TriggerHasStopped, Invoke (M_HardStopCtx Background), Resume 0,
              Invoke M_TriggerSoftStop]
          \<lparr> signaller =
              \<lparr> softStopChan = Closed, softStopOnce = True,
                hardStopChan = Closed, hardStopOnce = True,
                hasStoppedChan = Open, hasStoppedOnce = False \<rparr>,
            cancelled = {}, next_ctx = 0, goroutines = [] \<rparr> = Inr w' \<and>
        IsSoftStopSignalled (signaller w') \<and> IsHardStopSignalled (signaller w')"
proof -
  let ?hs = "\<lparr> softStopChan = Closed, softStopOnce = True,
               hardStopChan = Closed, hardStopOnce = True,
               hasStoppedChan = Open, hasStoppedOnce = False \<rparr>"
  let ?w = "\<lparr> signaller = ?hs, cancelled = {}, next_ctx = 0, goroutines = [] \<rparr>"
  have f: "fire (Invoke M_TriggerHardStop) new_world = Inr ?w"
    by (simp add: world_defs trigger_defs)
  have r: "reachable ?w"
    by (rule reachable_fire [OF reachable_new _ f]) (simp add: ctx_exists_def)
  have q: "IsHardStopSignalled (signaller ?w)" "IsSoftStopSignalled (signaller ?w)"
    by (simp_all add: query_defs)
  from flags_monotone [OF r, of "[Invoke M_TriggerHasStopped, Invoke (M_HardStopCtx Background),
      Resume 0, Invoke M_TriggerSoftStop]"] q
  show ?thesis by blast
qed

section \<open>Independence of has-stopped (C8)\<close>

text \<open>
  C8. On a Signaller in any state it can be in, TriggerHasStopped returns, sets the
  has-stopped flag and leaves the soft-stop and hard-stop queries, channels and gates as
  they were; TriggerSoftStop and TriggerHardStop return and leave the has-stopped
  query, channel and gate as they were.
\<close>

theorem has_stopped_independent:
  assumes "signaller_state s"
  shows "(\<exists>s'. TriggerHasStopped s = Inr s' \<and> IsHasStoppedSignalled s' \<and>
            IsSoftStopSignalled s' = IsSoftStopSignalled s \<and>
            IsHardStopSignalled s' = IsHardStopSignalled s \<and>
            SoftStopChan s' = SoftStopChan s \<and> HardStopChan s' = HardStopChan s \<and>
            softStopOnce s' = softStopOnce s \<and> hardStopOnce s' = hardStopOnce s) \<and>
         (\<exists>s'. TriggerSoftStop s = Inr s' \<and>
            IsHasStoppedSignalled s' = IsHasStoppedSignalled s \<and>
            HasStoppedChan s' = HasStoppedChan s \<and> hasStoppedOnce s' = hasStoppedOnce s) \<and>
         (\<exists>s'. TriggerHardStop s = Inr s' \<and>
            IsHasStoppedSignalled s' = IsHasStoppedSignalled s \<and>
            HasStoppedChan s' = HasStoppedChan s \<and> hasStoppedOnce s' = hasStoppedOnce s)"
proof -
  from assms have g: "gates_ok s" by (simp add: signaller_state_gates)
  have a: "\<exists>s'. TriggerHasStopped s = Inr s' \<and> IsHasStoppedSignalled s' \<and>
            IsSoftStopSignalled s' = IsSoftStopSignalled s \<and>
            IsHardStopSignalled s' = IsHardStopSignalled s \<and>
            SoftStopChan s' = SoftStopChan s \<and> HardStopChan s' = HardStopChan s \<and>
            softStopOnce s' = softStopOnce s \<and> hardStopOnce s' = hardStopOnce s"
    using g by (auto simp: TriggerHasStopped_def gates_ok_def gate_ok_def query_defs)
  have b: "\<exists>s'. TriggerSoftStop s = Inr s' \<and>
            IsHasStoppedSignalled s' = IsHasStoppedSignalled s \<and>
            HasStoppedChan s' = HasStoppedChan s \<and> hasStoppedOnce s' = hasStoppedOnce s"
    using g by (auto simp: TriggerSoftStop_def gates_ok_def gate_ok_def query_defs)
  have c: "\<exists>s'. TriggerHardStop s = Inr s' \<and>
            IsHasStoppedSignalled s' = IsHasStoppedSignalled s \<and>
            HasStoppedChan s' = HasStoppedChan s \<and> hasStoppedOnce s' = hasStoppedOnce s"
    using g
    by (auto simp: TriggerHardStop_def TriggerSoftStop_def gates_ok_def gate_ok_def query_defs)
  from a b c show ?thesis by blast
qed

theorem has_stopped_independent_witness:
  "signaller_state NewSignaller \<and>
   (\<exists>s'. TriggerHasStopped NewSignaller = Inr s' \<and> IsHasStoppedSignalled s' \<and>
      \<not> IsSoftStopSignalled s' \<and> \<not> IsHardStopSignalled s')"
proof -
  have r: "signaller_state NewSignaller" by (rule fresh_state)
  have "\<not> IsSoftStopSignalled NewSignaller" "\<not> IsHardStopSignalled NewSignaller"
    by (simp_all add: query_defs NewSignaller_def)
  with has_stopped_independent [OF r] r show ?thesis by auto
qed

section \<open>Commuting triggers (C10)\<close>

text \<open>
  C10. On a Signaller in any state it can be in, two triggers called in either order
  both return and leave the same state; more generally two sequences of triggers that
  contain the same triggers leave the same state, whatever the order and the
  repetitions.
\<close>

theorem triggers_commute:
  assumes "signaller_state s"
  shows "(\<exists>s'. triggers [a, b] s = Inr s' \<and> triggers [b, a] s = Inr s') \<and>
         (set ts = set ts' \<longrightarrow> (\<exists>s'. triggers ts s = Inr s' \<and> triggers ts' s = Inr s'))"
proof -
  from assms have g: "gates_ok s" by (simp add: signaller_state_gates)
  have "set [a, b] = set [b, a]" by auto
  from triggers_same_set [OF g this] triggers_same_set [OF g, of ts ts']
  show ?thesis by blast
qed

theorem triggers_commute_witness:
  "signaller_state NewSignaller \<and>
   (\<exists>s'. triggers [HardStop, HasStopped] NewSignaller = Inr s' \<and>
         triggers [HasStopped, HardStop] NewSignaller = Inr s') \<and>
   (\<exists>s'. triggers [SoftStop, HasStopped, SoftStop] NewSignaller = Inr s' \<and>
         triggers [HasStopped, SoftStop] NewSignaller = Inr s')"
proof -
  have r: "signaller_state NewSignaller" by (rule fresh_state)
  have "set [SoftStop, HasStopped, SoftStop] = set [HasStopped, SoftStop]" by auto
  with triggers_commute [OF r, of HardStop HasStopped "[SoftStop, HasStopped, SoftStop]"
      "[HasStopped, SoftStop]"] r
  show ?thesis by blast
qed

end
